theory Spec2Isabelle
  imports Main "HOL-Library.Char_ord" "HOL-Library.List_Lexorder"
begin

section \<open>Python values used by the binarizer\<close>

text \<open>
  Exceptions are values. \<open>KeyError\<close> carries the missing key, as Python's does;
  \<open>Raised\<close> stands for any exception thrown by a method that subclasses provide
  (\<open>process_item\<close>, \<open>arrange_data_augmentation\<close>, \<open>check_coverage\<close>, an augmentation
  function).
\<close>

datatype error = KeyError string | AssertionError string | NotImplementedError
  | ZeroDivisionError | Raised string

text \<open>
  \<open>s.split(c)\<close> for a one-character separator: the segments between the separators,
  always at least one segment.
\<close>

fun split_str :: "char \<Rightarrow> string \<Rightarrow> string list" where
  "split_str c [] = [[]]"
| "split_str c (x # xs) =
     (if x = c then [] # split_str c xs
      else (case split_str c xs of
              [] \<Rightarrow> [[x]]
            | w # ws \<Rightarrow> (x # w) # ws))"

text \<open>\<open>name.split(':')[-1]\<close>: the part of the name after its last colon.\<close>

definition colon_suffix :: "string \<Rightarrow> string" where
  "colon_suffix name = last (split_str (CHR '':'') name)"

text \<open>\<open>s.startswith(p)\<close>.\<close>

definition startswith :: "string \<Rightarrow> string \<Rightarrow> bool" where
  "startswith s p = (take (length p) s = p)"

text \<open>
  A Python \<open>set\<close> of strings is a duplicate-free list, read in the order in which the
  set is iterated. \<open>s.add(x)\<close> keeps a member where it is; \<open>s.remove(x)\<close> raises
  \<open>KeyError\<close> when \<open>x\<close> is not a member.
\<close>

definition set_add :: "string \<Rightarrow> string list \<Rightarrow> string list" where
  "set_add x s = (if x \<in> set s then s else s @ [x])"

definition set_remove :: "string \<Rightarrow> string list \<Rightarrow> error + string list" where
  "set_remove x s = (if x \<in> set s then Inr (removeAll x s) else Inl (KeyError x))"

section \<open>BaseBinarizer.split_train_valid_set\<close>

text \<open>
  The loops work on the pair \<open>(valid_item_names, prefixes)\<close>. Each outer loop runs over
  a copy of \<open>prefixes\<close> taken before the loop starts, while the removals go to
  \<open>prefixes\<close> itself.

  First loop: a prefix that is an item name goes to the validation set and is removed.
\<close>

type_synonym split_state = "string list \<times> string list"

fun tier1 :: "string list \<Rightarrow> string list \<Rightarrow> split_state \<Rightarrow> error + split_state" where
  "tier1 item_names [] st = Inr st"
| "tier1 item_names (prefix # rest) (valid_item_names, prefixes) =
     (if prefix \<in> set item_names then
        (case set_remove prefix prefixes of
           Inl e \<Rightarrow> Inl e
         | Inr prefixes' \<Rightarrow> tier1 item_names rest (set_add prefix valid_item_names, prefixes'))
      else tier1 item_names rest (valid_item_names, prefixes))"

text \<open>
  The second and the third loop have the same shape and differ in their test only:
  for each prefix of the copy, for each item name, a hit adds the name and removes the
  prefix. The inner loop has no \<open>break\<close>, so it goes on after a hit.
\<close>

fun scan_names :: "(string \<Rightarrow> string \<Rightarrow> bool) \<Rightarrow> string \<Rightarrow> string list \<Rightarrow> split_state
    \<Rightarrow> error + split_state" where
  "scan_names hit prefix [] st = Inr st"
| "scan_names hit prefix (name # rest) (valid_item_names, prefixes) =
     (if hit name prefix then
        (case set_remove prefix prefixes of
           Inl e \<Rightarrow> Inl e
         | Inr prefixes' \<Rightarrow> scan_names hit prefix rest (set_add name valid_item_names, prefixes'))
      else scan_names hit prefix rest (valid_item_names, prefixes))"

fun scan_prefixes :: "(string \<Rightarrow> string \<Rightarrow> bool) \<Rightarrow> string list \<Rightarrow> string list \<Rightarrow> split_state
    \<Rightarrow> error + split_state" where
  "scan_prefixes hit item_names [] st = Inr st"
| "scan_prefixes hit item_names (prefix # rest) st =
     (case scan_names hit prefix item_names st of
        Inl e \<Rightarrow> Inl e
      | Inr st' \<Rightarrow> scan_prefixes hit item_names rest st')"

definition tier2 :: "string list \<Rightarrow> split_state \<Rightarrow> error + split_state" where
  "tier2 item_names st =
     scan_prefixes (\<lambda>name prefix. colon_suffix name = prefix) item_names (snd st) st"

definition tier3 :: "string list \<Rightarrow> split_state \<Rightarrow> error + split_state" where
  "tier3 item_names st =
     scan_prefixes (\<lambda>name prefix. startswith name prefix) item_names (snd st) st"

text \<open>The last loop removes nothing and cannot fail.\<close>

definition tier4 :: "string list \<Rightarrow> split_state \<Rightarrow> string list" where
  "tier4 item_names st =
     fold (\<lambda>prefix valid_item_names.
             fold (\<lambda>name valid_item_names.
                     if startswith (colon_suffix name) prefix
                     then set_add name valid_item_names else valid_item_names)
                  item_names valid_item_names)
          (snd st) (fst st)"

text \<open>
  \<open>item_names\<close> is the set \<open>set(deepcopy(self.item_names))\<close> in its iteration order
  (the set is never changed, so every loop sees the same order); \<open>test_prefixes\<close> is
  \<open>hparams['test_prefixes']\<close>, already as strings, and \<open>set(...)\<close> of it drops the
  duplicates. A copy of \<open>prefixes\<close> is read in the order of \<open>prefixes\<close> itself. The
  validation names are sorted before they are returned; the training names are a
  comprehension over the set.
\<close>

definition split_train_valid_set :: "string list \<Rightarrow> string list
    \<Rightarrow> error + (string list \<times> string list)" where
  "split_train_valid_set item_names test_prefixes =
     (let prefixes = remdups test_prefixes in
      case tier1 item_names prefixes ([], prefixes) of
        Inl e \<Rightarrow> Inl e
      | Inr st1 \<Rightarrow>
     (case tier2 item_names st1 of
        Inl e \<Rightarrow> Inl e
      | Inr st2 \<Rightarrow>
     (case tier3 item_names st2 of
        Inl e \<Rightarrow> Inl e
      | Inr st3 \<Rightarrow>
          (let valid_item_names = sort (tier4 item_names st3);
               train_item_names = filter (\<lambda>x. x \<notin> set valid_item_names) item_names
           in Inr (train_item_names, valid_item_names)))))"

section \<open>BaseBinarizer.process_dataset\<close>

text \<open>
  A binarized record has the required fields \<open>name\<close>, \<open>length\<close> and \<open>seconds\<close>;
  the feature payload plays no part in the bookkeeping. \<open>seconds\<close> is a float, of
  which only addition is used, so its type is left open. An augmentation task is the
  call \<open>task['func'](item, **task['kwargs'])\<close>, a function from the base record to the
  derived record that may raise.
\<close>

record 's binarized =
  name :: string
  length_rec :: int
  seconds :: 's

type_synonym 's task = "'s binarized \<Rightarrow> error + 's binarized"

record binarization_args =
  shuffle :: bool
  num_workers :: int

text \<open>
  The local state of one \<open>process_dataset\<close> call: \<open>builder\<close> is the sequence of
  the records handed to \<open>IndexedDatasetBuilder.add_item\<close>, in call order;
  \<open>lengths\<close> is the list that \<open>np.save\<close> writes to the lengths file at the end.
\<close>

record 's dataset_state =
  builder :: "'s binarized list"
  lengths :: "int list"
  total_sec :: 's
  total_raw_sec :: 's

definition initial_state :: "('s::{zero,plus}) dataset_state" where
  "initial_state = \<lparr>builder = [], lengths = [], total_sec = 0, total_raw_sec = 0\<rparr>"

text \<open>\<open>d.get(k, dflt)\<close>: the value at \<open>k\<close>, or \<open>dflt\<close> when the key is missing.\<close>

definition dict_get :: "('k \<rightharpoonup> 'v) \<Rightarrow> 'k \<Rightarrow> 'v \<Rightarrow> 'v" where
  "dict_get d k dflt = (case d k of None \<Rightarrow> dflt | Some v \<Rightarrow> v)"

text \<open>The loop over the augmentation tasks of one record, inside \<open>postprocess\<close>.\<close>

fun run_tasks :: "('s::{zero,plus}) task list \<Rightarrow> 's binarized \<Rightarrow> 's dataset_state
    \<Rightarrow> error + 's dataset_state" where
  "run_tasks [] item st = Inr st"
| "run_tasks (task # rest) item st =
     (case task item of
        Inl e \<Rightarrow> Inl e
      | Inr aug_item \<Rightarrow>
          run_tasks rest item
            (st\<lparr>builder := builder st @ [aug_item],
                lengths := lengths st @ [length_rec aug_item],
                total_sec := total_sec st + seconds aug_item\<rparr>))"

definition postprocess :: "(string \<rightharpoonup> ('s::{zero,plus}) task list) \<Rightarrow> 's binarized option
    \<Rightarrow> 's dataset_state \<Rightarrow> error + 's dataset_state" where
  "postprocess aug_map item st =
     (case item of
        None \<Rightarrow> Inr st
      | Some it \<Rightarrow>
          run_tasks (dict_get aug_map (name it) []) it
            (st\<lparr>builder := builder st @ [it],
                lengths := lengths st @ [length_rec it],
                total_sec := total_sec st + seconds it,
                total_raw_sec := total_raw_sec st + seconds it\<rparr>))"

text \<open>
  Both branches of \<open>process_dataset\<close> are a loop that takes the next result and
  passes it to \<open>postprocess\<close>. A result is \<open>Inl\<close> when producing it raised
  (\<open>process_item\<close> in the sequential branch, the generator in the parallel one),
  which ends the run.
\<close>

fun postprocess_all :: "(string \<rightharpoonup> ('s::{zero,plus}) task list)
    \<Rightarrow> (error + 's binarized option) list \<Rightarrow> 's dataset_state \<Rightarrow> error + 's dataset_state" where
  "postprocess_all aug_map [] st = Inr st"
| "postprocess_all aug_map (r # rest) st =
     (case r of
        Inl e \<Rightarrow> Inl e
      | Inr item \<Rightarrow>
          (case postprocess aug_map item st of
             Inl e \<Rightarrow> Inl e
           | Inr st' \<Rightarrow> postprocess_all aug_map rest st'))"

text \<open>
  The binarizer object: the fields that \<open>process\<close> and \<open>process_dataset\<close> read, and
  the methods that subclasses define. \<open>augmentation_args\<close> is the list of the keys of
  that mapping (only its size is read). \<open>chunked_multiprocess_run\<close> belongs to
  \<open>utils.multiprocess_utils\<close>, outside this file: it is a field too, the sequence of
  the results it yields.
\<close>

type_synonym 'm item_args = "string \<times> 'm \<times> binarization_args"

record ('m, 's) binarizer =
  items :: "string \<rightharpoonup> 'm"
  train_item_names :: "string list"
  valid_item_names :: "string list"
  binarization_args :: binarization_args
  augmentation_args :: "string list"
  speakers :: "string list"
  num_spk :: nat
  process_item :: "'m item_args \<Rightarrow> error + 's binarized option"
  arrange_data_augmentation :: "(string \<times> 'm) list \<Rightarrow> error + (string \<rightharpoonup> 's task list)"
  check_coverage :: "error + unit"
  chunked_multiprocess_run ::
    "('m item_args \<Rightarrow> error + 's binarized option) \<Rightarrow> 'm item_args list \<Rightarrow> int
     \<Rightarrow> (error + 's binarized option) list"

text \<open>\<open>self.items[item_name]\<close> for each name of the split, in the split's order.\<close>

fun lookup_items :: "(string \<rightharpoonup> 'm) \<Rightarrow> string list \<Rightarrow> error + (string \<times> 'm) list" where
  "lookup_items d [] = Inr []"
| "lookup_items d (item_name # rest) =
     (case d item_name of
        None \<Rightarrow> Inl (KeyError item_name)
      | Some meta_data \<Rightarrow>
          (case lookup_items d rest of
             Inl e \<Rightarrow> Inl e
           | Inr ms \<Rightarrow> Inr ((item_name, meta_data) # ms)))"

definition meta_data_iterator :: "('m, 's) binarizer \<Rightarrow> string \<Rightarrow> error + (string \<times> 'm) list" where
  "meta_data_iterator self prefix =
     lookup_items (items self)
       (if prefix = ''train'' then train_item_names self else valid_item_names self)"

text \<open>
  The duration report that ends \<open>process_dataset\<close>, after the builder is finalized and
  the lengths file is written. With augmentation it prints the quotient
  \<open>total_sec / total_raw_sec\<close>; the totals start as \<open>0\<close> and Python floats are added to
  them, so the division raises \<open>ZeroDivisionError\<close> when \<open>total_raw_sec\<close> is zero.
  Without augmentation nothing is divided.
\<close>

definition duration_report :: "bool \<Rightarrow> ('s::{zero,plus}) dataset_state \<Rightarrow> error + unit" where
  "duration_report apply_augmentation st =
     (if apply_augmentation
      then (if total_raw_sec st = 0 then Inl ZeroDivisionError else Inr ())
      else Inr ())"

text \<open>
  The result is the state at the end of the call: its \<open>builder\<close> is the content of the
  finalized dataset, its \<open>lengths\<close> the content of the lengths file. A run that raises,
  in the report as well, has no result.
\<close>

definition process_dataset :: "('m, 's::{zero,plus}) binarizer \<Rightarrow> string \<Rightarrow> int \<Rightarrow> bool
    \<Rightarrow> error + 's dataset_state" where
  "process_dataset self prefix n_workers apply_augmentation =
     (case meta_data_iterator self prefix of
        Inl e \<Rightarrow> Inl e
      | Inr metas \<Rightarrow>
          (let args = map (\<lambda>(item_name, meta_data).
                             (item_name, meta_data, binarization_args self)) metas
           in case (if apply_augmentation then arrange_data_augmentation self metas
                    else Inr Map.empty) of
                Inl e \<Rightarrow> Inl e
              | Inr aug_map \<Rightarrow>
                  (case (if n_workers > 0
                         then postprocess_all aug_map
                                (chunked_multiprocess_run self (process_item self) args n_workers)
                                initial_state
                         else postprocess_all aug_map (map (process_item self) args)
                                initial_state) of
                     Inl e \<Rightarrow> Inl e
                   | Inr st \<Rightarrow>
                       (case duration_report apply_augmentation st of
                          Inl e \<Rightarrow> Inl e
                        | Inr u \<Rightarrow> Inr st))))"

section \<open>BaseBinarizer.process\<close>

text \<open>
  \<open>build_spk_map\<close> numbers the speakers and asserts that they are at most \<open>num_spk\<close>
  (a dictionary has one entry per distinct name, a later index replacing an earlier one).
\<close>

definition build_spk_map :: "('m, 's) binarizer \<Rightarrow> error + (string \<rightharpoonup> nat)" where
  "build_spk_map self =
     (let spk_map = map_of (rev (zip (speakers self) [0 ..< length (speakers self)]))
      in if length (remdups (speakers self)) \<le> num_spk self then Inr spk_map
         else Inl (AssertionError ''Actual number of speakers should be smaller than num_spk!''))"

record 's binary_data =
  spk_map_json :: "string \<rightharpoonup> nat"
  valid_data :: "'s dataset_state"
  train_data :: "'s dataset_state"

definition process :: "('m, 's::{zero,plus}) binarizer \<Rightarrow> error + 's binary_data" where
  "process self =
     (case build_spk_map self of
        Inl e \<Rightarrow> Inl e
      | Inr spk_map \<Rightarrow>
     (case check_coverage self of
        Inl e \<Rightarrow> Inl e
      | Inr u \<Rightarrow>
     (case process_dataset self ''valid'' 0 False of
        Inl e \<Rightarrow> Inl e
      | Inr v \<Rightarrow>
     (case process_dataset self ''train'' (num_workers (binarization_args self))
             (length (augmentation_args self) > 0) of
        Inl e \<Rightarrow> Inl e
      | Inr t \<Rightarrow> Inr \<lparr>spk_map_json = spk_map, valid_data = v, train_data = t\<rparr>))))"

section \<open>BaseTask.__init__: the batch limits\<close>

text \<open>
  The four batch options, as read from \<open>hparams\<close> and as stored in the task. The
  constructor returns the task's attributes and the updated \<open>hparams\<close>.
\<close>

record batch_limits =
  max_batch_frames :: int
  max_batch_size :: int
  max_val_batch_frames :: int
  max_val_batch_size :: int

definition base_task_init :: "batch_limits \<Rightarrow> batch_limits \<times> batch_limits" where
  "base_task_init hparams =
     (let self_max_batch_frames = max_batch_frames hparams;
          self_max_batch_size = max_batch_size hparams;
          self_max_val_batch_frames = max_val_batch_frames hparams;
          (hparams1, self_max_val_batch_frames) =
             (if self_max_val_batch_frames = - 1
              then (hparams\<lparr>max_val_batch_frames := self_max_batch_frames\<rparr>, self_max_batch_frames)
              else (hparams, self_max_val_batch_frames));
          self_max_val_batch_size = max_val_batch_size hparams1;
          (hparams2, self_max_val_batch_size) =
             (if self_max_val_batch_size = - 1
              then (hparams1\<lparr>max_val_batch_size := self_max_batch_size\<rparr>, self_max_batch_size)
              else (hparams1, self_max_val_batch_size))
      in (\<lparr>max_batch_frames = self_max_batch_frames,
           max_batch_size = self_max_batch_size,
           max_val_batch_frames = self_max_val_batch_frames,
           max_val_batch_size = self_max_val_batch_size\<rparr>, hparams2))"

section \<open>A small binarizer for concrete runs\<close>

text \<open>
  Three items; \<open>process_item\<close> rejects \<open>c\<close> and gives \<open>a\<close> three frames and \<open>b\<close>
  five; the augmentation plan has two tasks for \<open>a\<close>; the worker pool returns its
  results in submission order.
\<close>

definition demo_binarizer :: "string list \<Rightarrow> string list \<Rightarrow> (unit, int) binarizer" where
  "demo_binarizer train valid =
     \<lparr>items = [''a'' \<mapsto> (), ''b'' \<mapsto> (), ''c'' \<mapsto> ()],
      train_item_names = train,
      valid_item_names = valid,
      binarization_args = \<lparr>shuffle = False, num_workers = 2\<rparr>,
      augmentation_args = [''random_pitch_shifting''],
      speakers = [''spk1''],
      num_spk = 1,
      process_item = (\<lambda>(item_name, meta_data, args).
         if item_name = ''c'' then Inr None
         else Inr (Some \<lparr>name = item_name, length_rec = (if item_name = ''a'' then 3 else 5),
                         seconds = 1\<rparr>)),
      arrange_data_augmentation = (\<lambda>metas.
         Inr [''a'' \<mapsto> [\<lambda>it. Inr (it\<lparr>length_rec := 2 * length_rec it\<rparr>),
                         \<lambda>it. Inr (it\<lparr>length_rec := 1 + length_rec it\<rparr>)]]),
      check_coverage = Inr (),
      chunked_multiprocess_run = (\<lambda>f args n. map f args)\<rparr>"

section \<open>Properties of the split\<close>

lemmas split_simps = split_train_valid_set_def tier2_def tier3_def tier4_def
  set_add_def set_remove_def colon_suffix_def startswith_def

lemma set_set_add: "set (set_add x s) = insert x (set s)"
  by (auto simp: set_add_def)

lemma tier1_valid_subset:
  "tier1 item_names ps st = Inr st' \<Longrightarrow> set (fst st) \<subseteq> set item_names
     \<Longrightarrow> set (fst st') \<subseteq> set item_names"
proof (induction item_names ps st rule: tier1.induct)
  case (1 item_names st)
  then show ?case by simp
next
  case (2 item_names prefix rest valid_item_names prefixes)
  then show ?case
    by (auto simp: set_set_add split: if_splits sum.splits)
qed

lemma scan_names_valid_subset:
  "scan_names hit prefix ns st = Inr st' \<Longrightarrow> set (fst st) \<subseteq> A \<Longrightarrow> set ns \<subseteq> A
     \<Longrightarrow> set (fst st') \<subseteq> A"
proof (induction hit prefix ns st rule: scan_names.induct)
  case (1 hit prefix st)
  then show ?case by simp
next
  case (2 hit prefix name rest valid_item_names prefixes)
  then show ?case
    by (auto simp: set_set_add split: if_splits sum.splits)
qed

lemma scan_prefixes_valid_subset:
  "scan_prefixes hit item_names ps st = Inr st' \<Longrightarrow> set (fst st) \<subseteq> set item_names
     \<Longrightarrow> set (fst st') \<subseteq> set item_names"
proof (induction ps arbitrary: st)
  case Nil
  then show ?case by simp
next
  case (Cons p ps)
  from Cons.prems(1) obtain st1 where
    s1: "scan_names hit p item_names st = Inr st1" and
    s2: "scan_prefixes hit item_names ps st1 = Inr st'"
    by (auto split: sum.splits)
  have "set (fst st1) \<subseteq> set item_names"
    using scan_names_valid_subset [OF s1 Cons.prems(2)] by simp
  then show ?case using Cons.IH [OF s2] by simp
qed

lemma fold_names_subset:
  "set v \<subseteq> A \<Longrightarrow> set ns \<subseteq> A \<Longrightarrow>
   set (fold (\<lambda>name v. if P name then set_add name v else v) ns v) \<subseteq> A"
  by (induction ns arbitrary: v) (auto simp: set_set_add)

lemma tier4_valid_subset:
  "set (fst st) \<subseteq> set item_names \<Longrightarrow> set (tier4 item_names st) \<subseteq> set item_names"
proof -
  have "set v \<subseteq> set item_names \<Longrightarrow>
        set (fold (\<lambda>prefix valid_item_names.
             fold (\<lambda>name valid_item_names.
                     if startswith (colon_suffix name) prefix
                     then set_add name valid_item_names else valid_item_names)
                  item_names valid_item_names) ps v) \<subseteq> set item_names" for ps v
  proof (induction ps arbitrary: v)
    case Nil
    then show ?case by simp
  next
    case (Cons p ps)
    show ?case
      by (simp only: fold_simps) (rule Cons.IH, rule fold_names_subset [OF Cons.prems], simp)
  qed
  then show "set (fst st) \<subseteq> set item_names \<Longrightarrow> set (tier4 item_names st) \<subseteq> set item_names"
    by (simp add: tier4_def)
qed

text \<open>
  What a returned pair looks like: the validation names are item names and are sorted,
  and the training names are the item names outside the validation names, in the
  iteration order of the set.
\<close>

lemma split_valid_subset:
  assumes "split_train_valid_set item_names test_prefixes = Inr (train, valid)"
  shows "set valid \<subseteq> set item_names"
    and "train = filter (\<lambda>x. x \<notin> set valid) item_names"
    and "sorted valid"
proof -
  from assms obtain st1 st2 st3 where
    t1: "tier1 item_names (remdups test_prefixes) ([], remdups test_prefixes) = Inr st1" and
    t2: "tier2 item_names st1 = Inr st2" and
    t3: "tier3 item_names st2 = Inr st3" and
    v: "valid = sort (tier4 item_names st3)" and
    t: "train = filter (\<lambda>x. x \<notin> set valid) item_names"
    by (auto simp: split_train_valid_set_def Let_def split: sum.splits)
  have "set (fst st1) \<subseteq> set item_names"
    using tier1_valid_subset [OF t1] by simp
  then have "set (fst st2) \<subseteq> set item_names"
    using scan_prefixes_valid_subset t2 unfolding tier2_def by blast
  then have "set (fst st3) \<subseteq> set item_names"
    using scan_prefixes_valid_subset t3 unfolding tier3_def by blast
  then show "set valid \<subseteq> set item_names"
    using tier4_valid_subset v by simp
  show "train = filter (\<lambda>x. x \<notin> set valid) item_names" by (rule t)
  show "sorted valid" by (simp add: v)
qed

text \<open>Whenever the split returns, the two sequences are a disjoint cover of the items.\<close>

lemma split_partition:
  assumes "split_train_valid_set item_names test_prefixes = Inr (train, valid)"
  shows "set train \<union> set valid = set item_names \<and> set train \<inter> set valid = {}"
  using split_valid_subset(1,2) [OF assms] by auto

text \<open>
  The inner loop of the second and third tier in closed form. Once the prefix has been
  removed, any further hit raises; so a prefix with no hit changes nothing, a prefix
  with exactly one hit moves that item to the validation set and is consumed, and a
  prefix with two or more hits ends the call in \<open>KeyError\<close>.
\<close>

lemma scan_names_prefix_gone:
  "prefix \<notin> set prefixes \<Longrightarrow>
   scan_names hit prefix ns (v, prefixes) =
     (if \<exists>n \<in> set ns. hit n prefix then Inl (KeyError prefix) else Inr (v, prefixes))"
  by (induction ns) (auto simp: set_remove_def)

lemma scan_names_result:
  "prefix \<in> set prefixes \<Longrightarrow>
   scan_names hit prefix ns (v, prefixes) =
     (case filter (\<lambda>n. hit n prefix) ns of
        [] \<Rightarrow> Inr (v, prefixes)
      | [n] \<Rightarrow> Inr (set_add n v, removeAll prefix prefixes)
      | n # m # ms \<Rightarrow> Inl (KeyError prefix))"
proof (induction ns)
  case Nil
  then show ?case by simp
next
  case (Cons a ns)
  show ?case
  proof (cases "hit a prefix")
    case True
    have gone: "prefix \<notin> set (removeAll prefix prefixes)" by simp
    show ?thesis
      using True Cons.prems scan_names_prefix_gone [OF gone, of hit ns "set_add a v"]
      by (auto simp: set_remove_def filter_empty_conv split: list.splits)
  next
    case False
    then show ?thesis using Cons by simp
  qed
qed

text \<open>
  The split returns whenever no test prefix equals the colon suffix of two item names
  and none is the start of two item names.
\<close>

lemma tier1_returns:
  "distinct cs \<Longrightarrow> set cs \<subseteq> set ps \<Longrightarrow>
   \<exists>v' ps'. tier1 item_names cs (v, ps) = Inr (v', ps') \<and> set ps' \<subseteq> set ps \<and>
            (distinct ps \<longrightarrow> distinct ps')"
proof (induction cs arbitrary: v ps)
  case Nil
  then show ?case by simp
next
  case (Cons c cs)
  show ?case
  proof (cases "c \<in> set item_names")
    case True
    have "set cs \<subseteq> set (removeAll c ps)" using Cons.prems by auto
    from Cons.IH [OF _ this, of "set_add c v"] Cons.prems(1)
    obtain v' ps' where
      "tier1 item_names cs (set_add c v, removeAll c ps) = Inr (v', ps')"
      "set ps' \<subseteq> set (removeAll c ps)" "distinct (removeAll c ps) \<longrightarrow> distinct ps'"
      by auto
    then show ?thesis using True Cons.prems by (auto simp: set_remove_def distinct_removeAll)
  next
    case False
    from Cons.IH [of ps v] Cons.prems False show ?thesis by auto
  qed
qed

lemma scan_prefixes_returns:
  "distinct cs \<Longrightarrow> set cs \<subseteq> set ps \<Longrightarrow>
   \<forall>p \<in> set cs. length (filter (\<lambda>n. hit n p) item_names) \<le> 1 \<Longrightarrow>
   \<exists>v' ps'. scan_prefixes hit item_names cs (v, ps) = Inr (v', ps') \<and> set ps' \<subseteq> set ps \<and>
            (distinct ps \<longrightarrow> distinct ps')"
proof (induction cs arbitrary: v ps)
  case Nil
  then show ?case by simp
next
  case (Cons c cs)
  have c: "c \<in> set ps" using Cons.prems(2) by simp
  have le: "length (filter (\<lambda>n. hit n c) item_names) \<le> 1" using Cons.prems(3) by simp
  have rest: "\<forall>p \<in> set cs. length (filter (\<lambda>n. hit n p) item_names) \<le> 1"
    using Cons.prems(3) by simp
  have dcs: "distinct cs" using Cons.prems(1) by simp
  show ?case
  proof (cases "filter (\<lambda>n. hit n c) item_names")
    case Nil
    then have s: "scan_names hit c item_names (v, ps) = Inr (v, ps)"
      by (simp add: scan_names_result [OF c])
    have "set cs \<subseteq> set ps" using Cons.prems(2) by simp
    from Cons.IH [OF dcs this rest, of v] s show ?thesis by auto
  next
    case (Cons n ms)
    with le have f: "filter (\<lambda>n. hit n c) item_names = [n]" by simp
    then have s: "scan_names hit c item_names (v, ps) = Inr (set_add n v, removeAll c ps)"
      by (simp add: scan_names_result [OF c])
    have "set cs \<subseteq> set (removeAll c ps)" using Cons.prems(1,2) by auto
    from Cons.IH [OF dcs this rest, of "set_add n v"] obtain v' ps' where
      "scan_prefixes hit item_names cs (set_add n v, removeAll c ps) = Inr (v', ps')"
      "set ps' \<subseteq> set (removeAll c ps)" "distinct (removeAll c ps) \<longrightarrow> distinct ps'"
      by auto
    then show ?thesis using s by (auto simp: distinct_removeAll)
  qed
qed

lemma split_returns:
  assumes "\<forall>p \<in> set test_prefixes.
             length (filter (\<lambda>n. colon_suffix n = p) item_names) \<le> 1 \<and>
             length (filter (\<lambda>n. startswith n p) item_names) \<le> 1"
  shows "\<exists>train valid. split_train_valid_set item_names test_prefixes = Inr (train, valid)"
proof -
  let ?ps = "remdups test_prefixes"
  from tier1_returns [of ?ps ?ps item_names "[]"] obtain v1 ps1 where
    t1: "tier1 item_names ?ps ([], ?ps) = Inr (v1, ps1)" and
    s1: "set ps1 \<subseteq> set ?ps" and d1: "distinct ps1"
    by auto
  have "\<forall>p \<in> set ps1. length (filter (\<lambda>n. colon_suffix n = p) item_names) \<le> 1"
    using assms s1 by auto
  from scan_prefixes_returns [OF d1 subset_refl this, of v1] obtain v2 ps2 where
    t2: "tier2 item_names (v1, ps1) = Inr (v2, ps2)" and
    s2: "set ps2 \<subseteq> set ps1" and d2: "distinct ps2"
    using d1 by (auto simp: tier2_def)
  have "\<forall>p \<in> set ps2. length (filter (\<lambda>n. startswith n p) item_names) \<le> 1"
    using assms s1 s2 by auto
  from scan_prefixes_returns [OF d2 subset_refl this, of v2] obtain v3 ps3 where
    t3: "tier3 item_names (v2, ps2) = Inr (v3, ps3)"
    by (auto simp: tier3_def)
  show ?thesis using t1 t2 t3 by (simp add: split_train_valid_set_def Let_def)
qed

text \<open>
  Two iteration orders of the same set of item names give the same outcome up to the
  order of the training names: the same error, or the same validation sequence and the
  same set of training names.
\<close>

lemma distinct_set_add: "distinct s \<Longrightarrow> distinct (set_add x s)"
  by (simp add: set_add_def)

lemma tier1_set_cong:
  "set ns1 = set ns2 \<Longrightarrow> tier1 ns1 cs st = tier1 ns2 cs st"
proof (induction cs arbitrary: st)
  case Nil
  then show ?case by simp
next
  case (Cons c cs)
  then show ?case by (cases st) (simp split: sum.splits)
qed

lemma tier1_distinct:
  "tier1 item_names cs st = Inr st' \<Longrightarrow> distinct (fst st) \<Longrightarrow> distinct (fst st')"
proof (induction item_names cs st rule: tier1.induct)
  case (1 item_names st)
  then show ?case by simp
next
  case (2 item_names prefix rest valid_item_names prefixes)
  then show ?case by (auto simp: distinct_set_add split: if_splits sum.splits)
qed

lemma scan_names_distinct:
  "scan_names hit prefix ns st = Inr st' \<Longrightarrow> distinct (fst st) \<Longrightarrow> distinct (fst st')"
proof (induction hit prefix ns st rule: scan_names.induct)
  case (1 hit prefix st)
  then show ?case by simp
next
  case (2 hit prefix name rest valid_item_names prefixes)
  then show ?case by (auto simp: distinct_set_add split: if_splits sum.splits)
qed

lemma scan_prefixes_distinct:
  "scan_prefixes hit item_names cs st = Inr st' \<Longrightarrow> distinct (fst st) \<Longrightarrow> distinct (fst st')"
proof (induction cs arbitrary: st)
  case Nil
  then show ?case by simp
next
  case (Cons c cs)
  from Cons.prems(1) obtain st1 where
    s1: "scan_names hit c item_names st = Inr st1" and
    s2: "scan_prefixes hit item_names cs st1 = Inr st'"
    by (auto split: sum.splits)
  show ?case
    using Cons.IH [OF s2] scan_names_distinct [OF s1 Cons.prems(2)] by simp
qed

lemma fold_names_set:
  "set (fold (\<lambda>name v. if P name then set_add name v else v) ns v) = set v \<union> {n \<in> set ns. P n}"
  by (induction ns arbitrary: v) (auto simp: set_set_add)

lemma fold_names_distinct:
  "distinct v \<Longrightarrow> distinct (fold (\<lambda>name v. if P name then set_add name v else v) ns v)"
  by (induction ns arbitrary: v) (auto simp: distinct_set_add)

lemma tier4_set:
  "set (tier4 item_names (v, ps)) =
     set v \<union> {n \<in> set item_names. \<exists>p \<in> set ps. startswith (colon_suffix n) p}"
proof -
  have "set (fold (\<lambda>prefix valid_item_names.
             fold (\<lambda>name valid_item_names.
                     if startswith (colon_suffix name) prefix
                     then set_add name valid_item_names else valid_item_names)
                  item_names valid_item_names) ps v) =
        set v \<union> {n \<in> set item_names. \<exists>p \<in> set ps. startswith (colon_suffix n) p}" for v
  proof (induction ps arbitrary: v)
    case Nil
    then show ?case by simp
  next
    case (Cons p ps)
    show ?case
      by (simp only: fold_simps Cons.IH fold_names_set) auto
  qed
  then show ?thesis by (simp add: tier4_def)
qed

lemma tier4_distinct:
  "distinct v \<Longrightarrow> distinct (tier4 item_names (v, ps))"
proof -
  have "distinct v \<Longrightarrow> distinct (fold (\<lambda>prefix valid_item_names.
             fold (\<lambda>name valid_item_names.
                     if startswith (colon_suffix name) prefix
                     then set_add name valid_item_names else valid_item_names)
                  item_names valid_item_names) ps v)" for v
  proof (induction ps arbitrary: v)
    case Nil
    then show ?case by simp
  next
    case (Cons p ps)
    show ?case
      by (simp only: fold_simps) (rule Cons.IH, rule fold_names_distinct [OF Cons.prems])
  qed
  then show "distinct v \<Longrightarrow> distinct (tier4 item_names (v, ps))" by (simp add: tier4_def)
qed

lemma filter_same_set:
  assumes "distinct ns1" "distinct ns2" "set ns1 = set ns2"
  shows "length (filter P ns1) = length (filter P ns2)"
    and "set (filter P ns1) = set (filter P ns2)"
proof -
  show s: "set (filter P ns1) = set (filter P ns2)" using assms(3) by simp
  have "distinct (filter P ns1)" "distinct (filter P ns2)" using assms by simp_all
  then show "length (filter P ns1) = length (filter P ns2)"
    using s by (metis distinct_card)
qed

lemma scan_names_perm:
  assumes "distinct ns1" "distinct ns2" "set ns1 = set ns2" "set v1 = set v2" "p \<in> set ps"
  shows "rel_sum (=) (\<lambda>s1 s2. set (fst s1) = set (fst s2) \<and> snd s1 = snd s2)
           (scan_names hit p ns1 (v1, ps)) (scan_names hit p ns2 (v2, ps))"
proof -
  let ?f1 = "filter (\<lambda>n. hit n p) ns1" and ?f2 = "filter (\<lambda>n. hit n p) ns2"
  have l: "length ?f1 = length ?f2" and s: "set ?f1 = set ?f2"
    using filter_same_set [OF assms(1-3)] by blast+
  show ?thesis
  proof (cases ?f1)
    case Nil
    with l have "?f2 = []" by simp
    with Nil show ?thesis using assms(4) by (simp add: scan_names_result [OF assms(5)])
  next
    case (Cons n ms)
    note c1 = this
    show ?thesis
    proof (cases ms)
      case Nil
      with c1 have f1: "?f1 = [n]" by simp
      with l obtain x where f2: "?f2 = [x]" by (cases ?f2) auto
      from s have "x = n" unfolding f1 f2 by simp
      with f1 f2 have "?f1 = [n]" "?f2 = [n]" by simp_all
      then show ?thesis using assms(4)
        by (simp add: scan_names_result [OF assms(5)] set_set_add)
    next
      case (Cons m ms')
      with c1 l obtain a b bs where "?f2 = a # b # bs"
        by (cases ?f2; cases "tl ?f2") auto
      with c1 Cons show ?thesis
        by (simp add: scan_names_result [OF assms(5)])
    qed
  qed
qed

lemma scan_names_prefixes:
  "scan_names hit c ns (v, ps) = Inr (v', ps') \<Longrightarrow> c \<in> set ps \<Longrightarrow>
   ps' = ps \<or> ps' = removeAll c ps"
  by (auto simp: scan_names_result split: list.splits)

lemma scan_prefixes_perm:
  assumes "distinct ns1" "distinct ns2" "set ns1 = set ns2"
  shows "distinct cs \<Longrightarrow> set cs \<subseteq> set ps \<Longrightarrow> set v1 = set v2 \<Longrightarrow>
         rel_sum (=) (\<lambda>s1 s2. set (fst s1) = set (fst s2) \<and> snd s1 = snd s2)
           (scan_prefixes hit ns1 cs (v1, ps)) (scan_prefixes hit ns2 cs (v2, ps))"
proof (induction cs arbitrary: v1 v2 ps)
  case Nil
  then show ?case by simp
next
  case (Cons c cs)
  have c: "c \<in> set ps" using Cons.prems(2) by simp
  note step = scan_names_perm [OF assms Cons.prems(3) c, of hit]
  show ?case
  proof (cases "scan_names hit c ns1 (v1, ps)")
    case (Inl e)
    with step show ?thesis by (auto elim: rel_sum.cases)
  next
    case (Inr s1)
    with step obtain s2 where
      s2: "scan_names hit c ns2 (v2, ps) = Inr s2" and
      r: "set (fst s1) = set (fst s2)" "snd s1 = snd s2"
      by (auto elim: rel_sum.cases)
    have "snd s1 = ps \<or> snd s1 = removeAll c ps"
      using scan_names_prefixes [of hit c ns1 v1 ps "fst s1" "snd s1"] Inr c by simp
    then have sub: "set cs \<subseteq> set (snd s1)" using Cons.prems(1,2) by auto
    have d: "distinct cs" using Cons.prems(1) by simp
    from Cons.IH [OF d sub r(1)] show ?thesis
      using Inr s2 r(2) by (cases s1; cases s2) simp
  qed
qed

lemma scan_prefixes_snd:
  "distinct cs \<Longrightarrow> set cs \<subseteq> set ps \<Longrightarrow> distinct ps \<Longrightarrow>
   scan_prefixes hit ns cs (v, ps) = Inr (v', ps') \<Longrightarrow> distinct ps'"
proof (induction cs arbitrary: v ps)
  case Nil
  then show ?case by simp
next
  case (Cons c cs)
  from Cons.prems(4) obtain v1 ps1 where
    s1: "scan_names hit c ns (v, ps) = Inr (v1, ps1)" and
    s2: "scan_prefixes hit ns cs (v1, ps1) = Inr (v', ps')"
    by (auto split: sum.splits)
  have c: "c \<in> set ps" using Cons.prems(2) by simp
  have p: "ps1 = ps \<or> ps1 = removeAll c ps" by (rule scan_names_prefixes [OF s1 c])
  then have "set cs \<subseteq> set ps1" "distinct ps1"
    using Cons.prems(1,2,3) by (auto simp: distinct_removeAll)
  then show ?case using Cons.IH [OF _ _ _ s2] Cons.prems(1) by simp
qed

lemma split_valid_order_independent:
  assumes "distinct ns1" "distinct ns2" "set ns1 = set ns2"
  shows "rel_sum (=) (\<lambda>r1 r2. snd r1 = snd r2 \<and> set (fst r1) = set (fst r2))
           (split_train_valid_set ns1 test_prefixes) (split_train_valid_set ns2 test_prefixes)"
proof -
  let ?ps = "remdups test_prefixes"
  let ?R = "\<lambda>s1 s2 :: split_state. set (fst s1) = set (fst s2) \<and> snd s1 = snd s2"
  have t1eq: "tier1 ns1 ?ps ([], ?ps) = tier1 ns2 ?ps ([], ?ps)"
    by (rule tier1_set_cong [OF assms(3)])
  from tier1_returns [of ?ps ?ps ns2 "[]"] obtain v1 ps1 where
    t1: "tier1 ns2 ?ps ([], ?ps) = Inr (v1, ps1)" and d1: "distinct ps1"
    by auto
  have dv1: "distinct v1" using tier1_distinct [OF t1] by simp
  have r2: "rel_sum (=) ?R (tier2 ns1 (v1, ps1)) (tier2 ns2 (v1, ps1))"
    unfolding tier2_def using scan_prefixes_perm [OF assms d1 subset_refl refl] by simp
  show ?thesis
  proof (cases "tier2 ns1 (v1, ps1)")
    case (Inl e)
    with r2 have "tier2 ns2 (v1, ps1) = Inl e" by (auto elim: rel_sum.cases)
    with Inl t1 t1eq show ?thesis by (simp add: split_train_valid_set_def Let_def)
  next
    case (Inr s1)
    with r2 obtain s2 where
      s2: "tier2 ns2 (v1, ps1) = Inr s2" and
      e2: "set (fst s1) = set (fst s2)" "snd s1 = snd s2"
      by (auto elim: rel_sum.cases)
    obtain a1 q where s1p: "s1 = (a1, q)" by (cases s1)
    with e2 obtain a2 where s2p: "s2 = (a2, q)" and a12: "set a1 = set a2" by (cases s2) auto
    have dq: "distinct q"
      using scan_prefixes_snd [OF d1 subset_refl d1] Inr s1p unfolding tier2_def by auto
    have da: "distinct a1" "distinct a2"
      using scan_prefixes_distinct Inr s2 dv1 s1p s2p unfolding tier2_def by fastforce+
    have r3: "rel_sum (=) ?R (tier3 ns1 (a1, q)) (tier3 ns2 (a2, q))"
      unfolding tier3_def using scan_prefixes_perm [OF assms dq subset_refl a12] by simp
    show ?thesis
    proof (cases "tier3 ns1 (a1, q)")
      case (Inl e)
      with r3 have "tier3 ns2 (a2, q) = Inl e" by (auto elim: rel_sum.cases)
      with Inl Inr s2 s1p s2p t1 t1eq show ?thesis
        by (simp add: split_train_valid_set_def Let_def)
    next
      case (Inr u1)
      note u1 = this
      with r3 obtain u2 where
        u2: "tier3 ns2 (a2, q) = Inr u2" and
        e3: "set (fst u1) = set (fst u2)" "snd u1 = snd u2"
        by (auto elim: rel_sum.cases)
      obtain b1 w where u1p: "u1 = (b1, w)" by (cases u1)
      with e3 obtain b2 where u2p: "u2 = (b2, w)" and b12: "set b1 = set b2"
        by (cases u2) auto
      have db: "distinct b1" "distinct b2"
        using scan_prefixes_distinct u1 u2 da u1p u2p unfolding tier3_def by fastforce+
      have "set (tier4 ns1 (b1, w)) = set (tier4 ns2 (b2, w))"
        by (simp add: tier4_set b12 assms(3))
      moreover have "distinct (tier4 ns1 (b1, w))" "distinct (tier4 ns2 (b2, w))"
        using db by (simp_all add: tier4_distinct)
      ultimately have v: "sort (tier4 ns1 (b1, w)) = sort (tier4 ns2 (b2, w))"
        by (metis distinct_sort set_sort sorted_distinct_set_unique sorted_sort)
      show ?thesis
        using \<open>tier2 ns1 (v1, ps1) = Inr s1\<close> s2 s1p s2p u1 u2 u1p u2p t1 t1eq v assms(3)
        by (simp add: split_train_valid_set_def Let_def)
    qed
  qed
qed

text \<open>
  C1. For every set of item names and every list of test prefixes the split is to
  return a disjoint cover of the item names. The cover holds for every pair that is
  returned (\<open>split_partition\<close>), and a pair is returned whenever no prefix hits two
  items (\<open>split_returns\<close>), but not every input gets a pair: with the items
  \<open>spk1:a\<close>, \<open>spk2:a\<close>, \<open>b\<close> and the prefix \<open>a\<close> the second loop removes the prefix
  at the first item and again at the second, and the call ends in \<open>KeyError\<close>.
\<close>

theorem split_raises_instead_of_partition:
  "split_train_valid_set [''spk1:a'', ''spk2:a'', ''b''] [''a''] = Inl (KeyError ''a'')"
  by (simp add: split_simps)

text \<open>
  C2. Two items with the same part after the last colon, equal to a prefix that the
  first loop left, are both to land in the validation set. In either iteration order
  of \<open>{spk1:song, spk2:song}\<close> with the prefix \<open>song\<close> the call raises
  \<open>KeyError\<close> at the second item instead.
\<close>

theorem colon_suffix_tier_second_hit_raises:
  "split_train_valid_set [''spk1:song'', ''spk2:song''] [''song''] = Inl (KeyError ''song'') \<and>
   split_train_valid_set [''spk2:song'', ''spk1:song''] [''song''] = Inl (KeyError ''song'')"
  by (simp add: split_simps)

text \<open>
  C3. Two items that start with the same prefix, still present when the third loop
  runs: the call is to return, with one of them added by that loop. In either
  iteration order of \<open>{abc1, abc2}\<close> with the prefix \<open>abc\<close> the third loop goes on
  after its first hit and the second removal raises \<open>KeyError\<close>.
\<close>

theorem startswith_tier_second_hit_raises:
  "split_train_valid_set [''abc1'', ''abc2''] [''abc''] = Inl (KeyError ''abc'') \<and>
   split_train_valid_set [''abc2'', ''abc1''] [''abc''] = Inl (KeyError ''abc'')"
  by (simp add: split_simps)

text \<open>
  C5. Items \<open>spk1:a\<close> and \<open>a\<close> with the single prefix \<open>a\<close>: the validation set is
  exactly \<open>a\<close>, and \<open>spk1:a\<close> stays in the training set, in either iteration order of
  the item set. The first loop takes the prefix away before the second loop looks at
  the colon suffixes.
\<close>

theorem exact_match_takes_precedence:
  "split_train_valid_set [''spk1:a'', ''a''] [''a''] = Inr ([''spk1:a''], [''a'']) \<and>
   split_train_valid_set [''a'', ''spk1:a''] [''a''] = Inr ([''spk1:a''], [''a''])"
  by (simp add: split_simps)

section \<open>Properties of process_dataset\<close>

lemmas demo_simps = demo_binarizer_def process_dataset_def meta_data_iterator_def
  postprocess_def dict_get_def initial_state_def duration_report_def

text \<open>
  C4. The returned sequences, the order of the training sequence included, and with
  it the record order and the lengths file of a sequential run, are to depend on the
  item-name set and the prefix list only. The validation names are sorted and do not
  depend on the iteration order (\<open>split_valid_order_independent\<close>); the training
  names are not sorted: they come out in the iteration order of the set. For the
  item set \<open>{a, b}\<close> and no prefixes the two iteration orders give two different
  training sequences, one of them unsorted, and the sequential runs over them write
  the lengths \<open>[3, 5]\<close> and \<open>[5, 3]\<close>.
\<close>

theorem train_order_follows_set_iteration_order:
  "split_train_valid_set [''a'', ''b''] [] = Inr ([''a'', ''b''], []) \<and>
   split_train_valid_set [''b'', ''a''] [] = Inr ([''b'', ''a''], []) \<and>
   \<not> sorted [''b'', ''a''] \<and>
   map_sum id lengths (process_dataset (demo_binarizer [''a'', ''b''] []) ''train'' 0 False)
     = Inr [3, 5] \<and>
   map_sum id lengths (process_dataset (demo_binarizer [''b'', ''a''] []) ''train'' 0 False)
     = Inr [5, 3]"
  by (simp add: split_simps demo_simps)

lemma run_tasks_lengths:
  "run_tasks ts item st = Inr st' \<Longrightarrow> lengths st = map length_rec (builder st)
     \<Longrightarrow> lengths st' = map length_rec (builder st')"
proof (induction ts arbitrary: st)
  case Nil
  then show ?case by simp
next
  case (Cons task rest)
  then show ?case by (auto split: sum.splits)
qed

lemma postprocess_lengths:
  "postprocess aug_map item st = Inr st' \<Longrightarrow> lengths st = map length_rec (builder st)
     \<Longrightarrow> lengths st' = map length_rec (builder st')"
  by (cases item) (auto simp: postprocess_def dest!: run_tasks_lengths)

lemma postprocess_all_lengths:
  "postprocess_all aug_map rs st = Inr st' \<Longrightarrow> lengths st = map length_rec (builder st)
     \<Longrightarrow> lengths st' = map length_rec (builder st')"
proof (induction rs arbitrary: st)
  case Nil
  then show ?case by simp
next
  case (Cons r rs)
  from Cons.prems(1) obtain item st1 where
    "postprocess aug_map item st = Inr st1" "postprocess_all aug_map rs st1 = Inr st'"
    by (auto split: sum.splits)
  then show ?case
    using Cons.IH postprocess_lengths [OF _ Cons.prems(2)] by blast
qed

lemma demo_train_run:
  "process_dataset (demo_binarizer [''a'', ''c'', ''b''] []) ''train'' 0 True =
   Inr \<lparr>builder = [\<lparr>name = ''a'', length_rec = 3, seconds = 1\<rparr>,
                    \<lparr>name = ''a'', length_rec = 6, seconds = 1\<rparr>,
                    \<lparr>name = ''a'', length_rec = 4, seconds = 1\<rparr>,
                    \<lparr>name = ''b'', length_rec = 5, seconds = 1\<rparr>],
        lengths = [3, 6, 4, 5], total_sec = 4, total_raw_sec = 2\<rparr>"
  by (simp add: demo_simps)

text \<open>
  C6. In every run of \<open>process_dataset\<close> that reaches the write, the array written to
  the lengths file is, element for element and in order, the \<open>length\<close> field of the
  records handed to \<open>add_item\<close> during the run, base and derived records interleaved as
  they were produced. This holds in the sequential and in the parallel branch, with
  or without augmentation.
\<close>

theorem lengths_file_matches_builder:
  fixes st :: "('s::{zero,plus}) dataset_state"
  assumes "process_dataset self prefix n_workers apply_augmentation = Inr st"
  shows "lengths st = map length_rec (builder st)"
proof -
  have init: "lengths (initial_state :: 's dataset_state)
                = map length_rec (builder (initial_state :: 's dataset_state))"
    by (simp add: initial_state_def)
  from assms obtain aug_map rs where "postprocess_all aug_map rs initial_state = Inr st"
    by (auto simp: process_dataset_def Let_def split: sum.splits if_splits)
  then show ?thesis using postprocess_all_lengths init by blast
qed

theorem lengths_file_matches_builder_witness:
  "process_dataset (demo_binarizer [''a'', ''c'', ''b''] []) ''train'' 0 True =
     Inr \<lparr>builder = [\<lparr>name = ''a'', length_rec = 3, seconds = 1\<rparr>,
                      \<lparr>name = ''a'', length_rec = 6, seconds = 1\<rparr>,
                      \<lparr>name = ''a'', length_rec = 4, seconds = 1\<rparr>,
                      \<lparr>name = ''b'', length_rec = 5, seconds = 1\<rparr>],
          lengths = [3, 6, 4, 5], total_sec = 4, total_raw_sec = 2\<rparr> \<and>
   [3, 6, 4, 5] = map length_rec [\<lparr>name = ''a'', length_rec = 3, seconds = 1::int\<rparr>,
                      \<lparr>name = ''a'', length_rec = 6, seconds = 1\<rparr>,
                      \<lparr>name = ''a'', length_rec = 4, seconds = 1\<rparr>,
                      \<lparr>name = ''b'', length_rec = 5, seconds = 1\<rparr>]"
  using lengths_file_matches_builder [OF demo_train_run] demo_train_run by simp

text \<open>
  What the task loop and \<open>postprocess\<close> append: the derived records are the results of
  the planned tasks on the base record, one per task and in the order of the plan, and
  the lengths grow by the \<open>length\<close> fields of the same records.
\<close>

lemma run_tasks_appends:
  "run_tasks ts item st = Inr st' \<Longrightarrow>
     \<exists>ds. list_all2 (\<lambda>task d. task item = Inr d) ts ds \<and>
          builder st' = builder st @ ds \<and>
          lengths st' = lengths st @ map length_rec ds \<and>
          total_raw_sec st' = total_raw_sec st"
proof (induction ts arbitrary: st)
  case Nil
  then show ?case by simp
next
  case (Cons task rest)
  from Cons.prems obtain aug_item where
    a: "task item = Inr aug_item" and
    r: "run_tasks rest item
          (st\<lparr>builder := builder st @ [aug_item],
              lengths := lengths st @ [length_rec aug_item],
              total_sec := total_sec st + seconds aug_item\<rparr>) = Inr st'"
    by (auto split: sum.splits)
  from Cons.IH [OF r] obtain ds where
    ds: "list_all2 (\<lambda>task d. task item = Inr d) rest ds"
        "builder st' = (builder st @ [aug_item]) @ ds"
        "lengths st' = (lengths st @ [length_rec aug_item]) @ map length_rec ds"
        "total_raw_sec st' = total_raw_sec st"
    by auto
  show ?case
  proof (intro exI conjI)
    show "list_all2 (\<lambda>task d. task item = Inr d) (task # rest) (aug_item # ds)"
      using a ds(1) by simp
    show "builder st' = builder st @ aug_item # ds" using ds(2) by simp
    show "lengths st' = lengths st @ map length_rec (aug_item # ds)" using ds(3) by simp
    show "total_raw_sec st' = total_raw_sec st" by (rule ds(4))
  qed
qed

lemma postprocess_Some_appends:
  assumes "postprocess aug_map (Some it) st = Inr st'"
  shows "\<exists>derived. list_all2 (\<lambda>task d. task it = Inr d) (dict_get aug_map (name it) []) derived \<and>
            builder st' = builder st @ it # derived \<and>
            lengths st' = lengths st @ length_rec it # map length_rec derived \<and>
            total_raw_sec st' = total_raw_sec st + seconds it"
proof -
  let ?st1 = "st\<lparr>builder := builder st @ [it],
                lengths := lengths st @ [length_rec it],
                total_sec := total_sec st + seconds it,
                total_raw_sec := total_raw_sec st + seconds it\<rparr>"
  from assms have "run_tasks (dict_get aug_map (name it) []) it ?st1 = Inr st'"
    by (simp add: postprocess_def)
  from run_tasks_appends [OF this] show ?thesis by auto
qed

lemma postprocess_None: "postprocess aug_map None st = Inr st"
  by (simp add: postprocess_def)

text \<open>
  The whole loop: the records appended are, result by result and in order, nothing for
  a null result, and for a non-null one the base record followed by the results of its
  planned tasks.
\<close>

lemma postprocess_all_appends:
  "postprocess_all aug_map rs st = Inr st' \<Longrightarrow>
     \<exists>dss. list_all2
             (\<lambda>r ds. case r of
                        Inl e \<Rightarrow> False
                      | Inr None \<Rightarrow> ds = []
                      | Inr (Some it) \<Rightarrow>
                          (\<exists>derived. ds = it # derived \<and>
                             length ds = length (dict_get aug_map (name it) []) + 1 \<and>
                             list_all2 (\<lambda>task d. task it = Inr d)
                               (dict_get aug_map (name it) []) derived))
             rs dss \<and>
           builder st' = builder st @ concat dss \<and>
           lengths st' = lengths st @ map length_rec (concat dss)"
proof (induction rs arbitrary: st)
  case Nil
  then show ?case by simp
next
  case (Cons r rs)
  let ?one = "\<lambda>r ds. case r of
                        Inl e \<Rightarrow> False
                      | Inr None \<Rightarrow> ds = []
                      | Inr (Some it) \<Rightarrow>
                          (\<exists>derived. ds = it # derived \<and>
                             length ds = length (dict_get aug_map (name it) []) + 1 \<and>
                             list_all2 (\<lambda>task d. task it = Inr d)
                               (dict_get aug_map (name it) []) derived)"
  from Cons.prems obtain item st1 where
    r: "r = Inr item" and
    p: "postprocess aug_map item st = Inr st1" and
    q: "postprocess_all aug_map rs st1 = Inr st'"
    by (auto split: sum.splits)
  from Cons.IH [OF q] obtain dss where
    dss: "list_all2 ?one rs dss"
         "builder st' = builder st1 @ concat dss"
         "lengths st' = lengths st1 @ map length_rec (concat dss)"
    by blast
  have "\<exists>ds. ?one r ds \<and> builder st1 = builder st @ ds \<and>
             lengths st1 = lengths st @ map length_rec ds"
  proof (cases item)
    case None
    with p have "st1 = st" by (simp add: postprocess_None)
    with r None show ?thesis by simp
  next
    case (Some it)
    from postprocess_Some_appends [OF p [unfolded Some]] obtain derived where
      d: "list_all2 (\<lambda>task d. task it = Inr d) (dict_get aug_map (name it) []) derived"
         "builder st1 = builder st @ it # derived"
         "lengths st1 = lengths st @ length_rec it # map length_rec derived"
      by blast
    have "length derived = length (dict_get aug_map (name it) [])"
      using d(1) by (simp add: list_all2_lengthD)
    with d r Some show ?thesis by (intro exI [of _ "it # derived"]) simp
  qed
  then obtain ds where
    ds: "?one r ds" "builder st1 = builder st @ ds"
        "lengths st1 = lengths st @ map length_rec ds"
    by blast
  show ?case
  proof (intro exI [of _ "ds # dss"] conjI)
    show "list_all2 ?one (r # rs) (ds # dss)" using ds(1) dss(1) by simp
    show "builder st' = builder st @ concat (ds # dss)" using ds(2) dss(2) by simp
    show "lengths st' = lengths st @ map length_rec (concat (ds # dss))"
      using ds(3) dss(3) by simp
  qed
qed

lemma demo_train_plan:
  "meta_data_iterator (demo_binarizer [''a'', ''c'', ''b''] []) ''train'' =
     Inr [(''a'', ()), (''c'', ()), (''b'', ())]"
  "arrange_data_augmentation (demo_binarizer [''a'', ''c'', ''b''] [])
     [(''a'', ()), (''c'', ()), (''b'', ())] =
     Inr [''a'' \<mapsto> [\<lambda>it. Inr (it\<lparr>length_rec := 2 * length_rec it\<rparr>),
                     \<lambda>it. Inr (it\<lparr>length_rec := 1 + length_rec it\<rparr>)]]"
  by (simp_all add: demo_binarizer_def meta_data_iterator_def)

text \<open>
  C7. In every run of \<open>process_dataset\<close> that returns, the records in the builder are,
  result by result and in the order of the results, nothing for a null result, and for
  a non-null result with \<open>k\<close> planned tasks under its name in the augmentation map
  exactly \<open>k + 1\<close> records: the base record, then the result of each planned task on
  it, in the order of the plan. The lengths file holds the \<open>length\<close> fields of exactly
  these records, so the item contributes \<open>k + 1\<close> entries there too.
\<close>

theorem augmentation_fan_out:
  fixes st :: "('s::{zero,plus}) dataset_state"
  assumes run: "process_dataset self prefix n_workers apply_augmentation = Inr st"
    and metas: "meta_data_iterator self prefix = Inr metas"
    and plan: "(if apply_augmentation then arrange_data_augmentation self metas
                else Inr Map.empty) = Inr aug_map"
    and results: "results =
           (let args = map (\<lambda>(item_name, meta_data).
                              (item_name, meta_data, binarization_args self)) metas
            in if n_workers > 0
               then chunked_multiprocess_run self (process_item self) args n_workers
               else map (process_item self) args)"
  shows "\<exists>dss. list_all2
             (\<lambda>r ds. case r of
                        Inl e \<Rightarrow> False
                      | Inr None \<Rightarrow> ds = []
                      | Inr (Some it) \<Rightarrow>
                          (\<exists>derived. ds = it # derived \<and>
                             length ds = length (dict_get aug_map (name it) []) + 1 \<and>
                             list_all2 (\<lambda>task d. task it = Inr d)
                               (dict_get aug_map (name it) []) derived))
             results dss \<and>
           builder st = concat dss \<and>
           lengths st = map length_rec (concat dss)"
proof -
  have "postprocess_all aug_map results initial_state = Inr st"
    using run metas plan unfolding results process_dataset_def Let_def
    by (auto split: sum.splits if_splits)
  from postprocess_all_appends [OF this] show ?thesis
    by (simp add: initial_state_def)
qed

theorem augmentation_fan_out_witness:
  "process_dataset (demo_binarizer [''a'', ''c'', ''b''] []) ''train'' 0 True =
     Inr \<lparr>builder = [\<lparr>name = ''a'', length_rec = 3, seconds = 1\<rparr>,
                      \<lparr>name = ''a'', length_rec = 6, seconds = 1\<rparr>,
                      \<lparr>name = ''a'', length_rec = 4, seconds = 1\<rparr>,
                      \<lparr>name = ''b'', length_rec = 5, seconds = 1\<rparr>],
          lengths = [3, 6, 4, 5], total_sec = 4, total_raw_sec = 2\<rparr> \<and>
   (\<exists>dss. list_all2
             (\<lambda>r ds. case r of
                        Inl e \<Rightarrow> False
                      | Inr None \<Rightarrow> ds = []
                      | Inr (Some it) \<Rightarrow>
                          (\<exists>derived. ds = it # derived \<and>
                             length ds =
                               length (dict_get
                                 ([''a'' \<mapsto> [\<lambda>it. Inr (it\<lparr>length_rec := 2 * length_rec it\<rparr>),
                                              \<lambda>it. Inr (it\<lparr>length_rec := 1 + length_rec it\<rparr>)]]
                                    :: string \<rightharpoonup> int task list)
                                 (name it) []) + 1 \<and>
                             list_all2 (\<lambda>task d. task it = Inr d)
                               (dict_get
                                 ([''a'' \<mapsto> [\<lambda>it. Inr (it\<lparr>length_rec := 2 * length_rec it\<rparr>),
                                              \<lambda>it. Inr (it\<lparr>length_rec := 1 + length_rec it\<rparr>)]]
                                    :: string \<rightharpoonup> int task list)
                                 (name it) []) derived))
             [Inr (Some \<lparr>name = ''a'', length_rec = 3, seconds = 1::int\<rparr>),
              Inr None :: error + int binarized option,
              Inr (Some \<lparr>name = ''b'', length_rec = 5, seconds = 1\<rparr>)] dss \<and>
           [\<lparr>name = ''a'', length_rec = 3, seconds = 1\<rparr>,
            \<lparr>name = ''a'', length_rec = 6, seconds = 1\<rparr>,
            \<lparr>name = ''a'', length_rec = 4, seconds = 1\<rparr>,
            \<lparr>name = ''b'', length_rec = 5, seconds = 1\<rparr>] = concat dss \<and>
           [3, 6, 4, 5] = map length_rec (concat dss))"
proof -
  have plan: "(if True then arrange_data_augmentation (demo_binarizer [''a'', ''c'', ''b''] [])
                 [(''a'', ()), (''c'', ()), (''b'', ())]
               else Inr Map.empty) =
     Inr [''a'' \<mapsto> [\<lambda>it. Inr (it\<lparr>length_rec := 2 * length_rec it\<rparr>),
                     \<lambda>it. Inr (it\<lparr>length_rec := 1 + length_rec it\<rparr>)]]"
    using demo_train_plan(2) by simp
  have results:
    "[Inr (Some \<lparr>name = ''a'', length_rec = 3, seconds = 1::int\<rparr>),
      Inr None,
      Inr (Some \<lparr>name = ''b'', length_rec = 5, seconds = 1\<rparr>)] =
     (let args = map (\<lambda>(item_name, meta_data).
                        (item_name, meta_data,
                         binarization_args (demo_binarizer [''a'', ''c'', ''b''] [])))
                   [(''a'', ()), (''c'', ()), (''b'', ())]
      in if (0::int) > 0
         then chunked_multiprocess_run (demo_binarizer [''a'', ''c'', ''b''] [])
                (process_item (demo_binarizer [''a'', ''c'', ''b''] [])) args 0
         else map (process_item (demo_binarizer [''a'', ''c'', ''b''] [])) args)"
    by (simp add: demo_binarizer_def)
  note fan = augmentation_fan_out [OF demo_train_run demo_train_plan(1) plan results]
  show ?thesis
    apply (rule conjI)
     apply (rule demo_train_run)
    apply (insert fan)
    apply (simp only: dataset_state.select_convs)
    done
qed

lemma postprocess_all_append:
  "postprocess_all aug_map (rs1 @ rs2) st =
     (case postprocess_all aug_map rs1 st of
        Inl e \<Rightarrow> Inl e
      | Inr st1 \<Rightarrow> postprocess_all aug_map rs2 st1)"
  by (induction rs1 arbitrary: st) (auto split: sum.splits)

text \<open>
  Inside the loop a null result is skipped: \<open>postprocess\<close> returns the state as it was,
  whatever the augmentation map holds, and the loop ends as the loop without this item
  does.
\<close>

lemma null_item_is_skipped:
  assumes "process_item self a = Inr None"
  shows "postprocess aug_map None st = Inr st \<and>
         postprocess_all aug_map (map (process_item self) (as1 @ a # as2)) st =
         postprocess_all aug_map (map (process_item self) (as1 @ as2)) st"
  using assms by (simp add: postprocess_all_append postprocess_None split: sum.splits)


section \<open>Properties of process\<close>

lemma demo_process_run:
  "process (demo_binarizer [''a'', ''c''] [''b'']) =
   Inr \<lparr>spk_map_json = [''spk1'' \<mapsto> 0],
        valid_data = \<lparr>builder = [\<lparr>name = ''b'', length_rec = 5, seconds = 1\<rparr>],
                      lengths = [5], total_sec = 1, total_raw_sec = 1\<rparr>,
        train_data = \<lparr>builder = [\<lparr>name = ''a'', length_rec = 3, seconds = 1\<rparr>,
                                 \<lparr>name = ''a'', length_rec = 6, seconds = 1\<rparr>,
                                 \<lparr>name = ''a'', length_rec = 4, seconds = 1\<rparr>],
                      lengths = [3, 6, 4], total_sec = 3, total_raw_sec = 1\<rparr>\<rparr>"
  by (simp add: process_def build_spk_map_def demo_simps)

text \<open>
  C10. \<open>process\<close> runs the validation split with \<open>num_workers = 0\<close> and without
  augmentation: what it writes for that split is the result of the sequential,
  unaugmented \<open>process_dataset\<close>, which does not depend on the worker pool or on the
  augmentation planner. The training split gets the configured worker count, and
  augmentation exactly when \<open>augmentation_args\<close> is not empty.
\<close>

theorem process_valid_sequential_train_configured:
  assumes "process self = Inr out"
  shows "process_dataset self ''valid'' 0 False = Inr (valid_data out) \<and>
         process_dataset self ''train'' (num_workers (binarization_args self))
            (augmentation_args self \<noteq> []) = Inr (train_data out) \<and>
         (\<forall>f g. process_dataset
                  (self\<lparr>arrange_data_augmentation := f, chunked_multiprocess_run := g\<rparr>)
                  ''valid'' 0 False = Inr (valid_data out))"
proof -
  from assms have v: "process_dataset self ''valid'' 0 False = Inr (valid_data out)"
    and t: "process_dataset self ''train'' (num_workers (binarization_args self))
            (length (augmentation_args self) > 0) = Inr (train_data out)"
    by (auto simp: process_def split: sum.splits)
  have "process_dataset (self\<lparr>arrange_data_augmentation := f, chunked_multiprocess_run := g\<rparr>)
          ''valid'' 0 False = process_dataset self ''valid'' 0 False" for f g
    by (simp add: process_dataset_def meta_data_iterator_def Let_def split: sum.splits)
  with v t show ?thesis by simp
qed

theorem process_valid_sequential_train_configured_witness:
  "process (demo_binarizer [''a'', ''c''] [''b'']) =
     Inr \<lparr>spk_map_json = [''spk1'' \<mapsto> 0],
          valid_data = \<lparr>builder = [\<lparr>name = ''b'', length_rec = 5, seconds = 1\<rparr>],
                        lengths = [5], total_sec = 1, total_raw_sec = 1\<rparr>,
          train_data = \<lparr>builder = [\<lparr>name = ''a'', length_rec = 3, seconds = 1\<rparr>,
                                   \<lparr>name = ''a'', length_rec = 6, seconds = 1\<rparr>,
                                   \<lparr>name = ''a'', length_rec = 4, seconds = 1\<rparr>],
                        lengths = [3, 6, 4], total_sec = 3, total_raw_sec = 1\<rparr>\<rparr> \<and>
   process_dataset (demo_binarizer [''a'', ''c''] [''b'']) ''valid'' 0 False =
     Inr \<lparr>builder = [\<lparr>name = ''b'', length_rec = 5, seconds = 1\<rparr>],
          lengths = [5], total_sec = 1, total_raw_sec = 1\<rparr> \<and>
   process_dataset (demo_binarizer [''a'', ''c''] [''b'']) ''train'' 2 True =
     Inr \<lparr>builder = [\<lparr>name = ''a'', length_rec = 3, seconds = 1\<rparr>,
                      \<lparr>name = ''a'', length_rec = 6, seconds = 1\<rparr>,
                      \<lparr>name = ''a'', length_rec = 4, seconds = 1\<rparr>],
          lengths = [3, 6, 4], total_sec = 3, total_raw_sec = 1\<rparr>"
proof -
  have nw: "num_workers (binarization_args (demo_binarizer [''a'', ''c''] [''b''])) = 2"
    by (simp add: demo_binarizer_def)
  have aa: "augmentation_args (demo_binarizer [''a'', ''c''] [''b'']) \<noteq> []"
    by (simp add: demo_binarizer_def)
  from process_valid_sequential_train_configured [OF demo_process_run] nw aa demo_process_run
  show ?thesis by simp
qed

section \<open>Properties of BaseTask.__init__\<close>

text \<open>
  C9. In the constructor a configured \<open>max_val_batch_frames\<close> of \<open>-1\<close> is replaced by
  \<open>max_batch_frames\<close> and a configured \<open>max_val_batch_size\<close> of \<open>-1\<close> by
  \<open>max_batch_size\<close>, in the task and in \<open>hparams\<close> alike; any other validation value is
  kept, and the two training values are never changed.
\<close>

theorem base_task_init_limits:
  "base_task_init hparams =
     (\<lparr>max_batch_frames = max_batch_frames hparams,
       max_batch_size = max_batch_size hparams,
       max_val_batch_frames =
         (if max_val_batch_frames hparams = - 1 then max_batch_frames hparams
          else max_val_batch_frames hparams),
       max_val_batch_size =
         (if max_val_batch_size hparams = - 1 then max_batch_size hparams
          else max_val_batch_size hparams)\<rparr>,
      hparams\<lparr>max_val_batch_frames :=
                 (if max_val_batch_frames hparams = - 1 then max_batch_frames hparams
                  else max_val_batch_frames hparams),
              max_val_batch_size :=
                 (if max_val_batch_size hparams = - 1 then max_batch_size hparams
                  else max_val_batch_size hparams)\<rparr>)"
  by (simp add: base_task_init_def Let_def)

end
